theory Spec2Isabelle
  imports Main "HOL-Library.AList"
begin

section \<open>Steps\<close>

text \<open>
  Modelled from the spec: the module \<^verbatim>\<open>tapeagents.core\<close> (classes \<^verbatim>\<open>AgentStep\<close>,
  \<^verbatim>\<open>Thought\<close>, \<^verbatim>\<open>Jump\<close>, \<^verbatim>\<open>Observation\<close>, \<^verbatim>\<open>Tape\<close>) is imported by
  \<^verbatim>\<open>view.py\<close> but is not among the sources. The step classes are a tagged union:
  every agent-produced step carries \<^verbatim>\<open>by\<close> (slash-separated path of the emitting agent)
  and \<^verbatim>\<open>prompt_id\<close>; \<^verbatim>\<open>Jump\<close> adds \<^verbatim>\<open>next_node\<close>; an \<^verbatim>\<open>Observation\<close> is not
  attributed to an agent. \<^verbatim>\<open>Call\<close>, \<^verbatim>\<open>Respond\<close> and \<^verbatim>\<open>Broadcast\<close> are declared in
  \<^verbatim>\<open>view.py\<close> as subclasses of \<^verbatim>\<open>Thought\<close>; \<^verbatim>\<open>view.py\<close> reads \<^verbatim>\<open>step.by\<close> on them and
  tests \<^verbatim>\<open>isinstance(step, Jump)\<close> under \<^verbatim>\<open>is_step_by_active_agent(step)\<close>, so \<^verbatim>\<open>Thought\<close>
  (and with it \<^verbatim>\<open>Call\<close>, \<^verbatim>\<open>Respond\<close>, \<^verbatim>\<open>Broadcast\<close>, \<^verbatim>\<open>Jump\<close>) is an \<^verbatim>\<open>AgentStep\<close>.

  Constructor arguments, in order:
  \<^item> \<open>Call by prompt_id content agent_name\<close> (kind \<^verbatim>\<open>"call"\<close>);
  \<^item> \<open>Respond by prompt_id content\<close> (kind \<^verbatim>\<open>"return"\<close>);
  \<^item> \<open>Broadcast by prompt_id content from_ to\<close> (kind \<^verbatim>\<open>"broadcast"\<close>);
  \<^item> \<open>Jump kind by prompt_id next_node\<close>;
  \<^item> \<open>AgentStep kind by prompt_id content\<close>: any other agent step;
  \<^item> \<open>Observation kind content\<close>;
  \<^item> \<open>OtherStep kind\<close>: a step object that is neither an \<^verbatim>\<open>AgentStep\<close> nor an
    \<^verbatim>\<open>Observation\<close>.
\<close>

datatype step =
    Call string string string string
  | Respond string string string
  | Broadcast string string string string "string list"
  | Jump string string string int
  | AgentStep string string string string
  | Observation string string
  | OtherStep string

datatype error = IndexError | KeyError | ValueError | AttributeError

fun step_kind :: "step \<Rightarrow> string" where
  "step_kind (Call b p c a) = ''call''"
| "step_kind (Respond b p c) = ''return''"
| "step_kind (Broadcast b p c f t) = ''broadcast''"
| "step_kind (Jump k b p n) = k"
| "step_kind (AgentStep k b p c) = k"
| "step_kind (Observation k c) = k"
| "step_kind (OtherStep k) = k"

text \<open>\<^verbatim>\<open>step.by\<close> and \<^verbatim>\<open>step.prompt_id\<close>: \<open>None\<close> where the object has no such attribute.\<close>

fun step_by :: "step \<Rightarrow> string option" where
  "step_by (Call b p c a) = Some b"
| "step_by (Respond b p c) = Some b"
| "step_by (Broadcast b p c f t) = Some b"
| "step_by (Jump k b p n) = Some b"
| "step_by (AgentStep k b p c) = Some b"
| "step_by (Observation k c) = None"
| "step_by (OtherStep k) = None"

fun step_prompt_id :: "step \<Rightarrow> string option" where
  "step_prompt_id (Call b p c a) = Some p"
| "step_prompt_id (Respond b p c) = Some p"
| "step_prompt_id (Broadcast b p c f t) = Some p"
| "step_prompt_id (Jump k b p n) = Some p"
| "step_prompt_id (AgentStep k b p c) = Some p"
| "step_prompt_id (Observation k c) = None"
| "step_prompt_id (OtherStep k) = None"

text \<open>The \<^verbatim>\<open>isinstance\<close> tests of \<^verbatim>\<open>view.py\<close>.\<close>

fun is_AgentStep :: "step \<Rightarrow> bool" where
  "is_AgentStep (Observation k c) = False"
| "is_AgentStep (OtherStep k) = False"
| "is_AgentStep s = True"

fun is_Call :: "step \<Rightarrow> bool" where
  "is_Call (Call b p c a) = True"
| "is_Call s = False"

fun is_Respond :: "step \<Rightarrow> bool" where
  "is_Respond (Respond b p c) = True"
| "is_Respond s = False"

fun is_Jump :: "step \<Rightarrow> bool" where
  "is_Jump (Jump k b p n) = True"
| "is_Jump s = False"

section \<open>Strings and dictionaries\<close>

text \<open>\<^verbatim>\<open>s.split(sep)\<close> for a one-character separator: never empty, \<^verbatim>\<open>"".split("/") == [""]\<close>.\<close>

fun str_split :: "char \<Rightarrow> string \<Rightarrow> string list" where
  "str_split sep [] = [[]]"
| "str_split sep (c # cs) =
     (if c = sep then [] # str_split sep cs
      else (case str_split sep cs of [] \<Rightarrow> [[c]] | w # ws \<Rightarrow> (c # w) # ws))"

text \<open>\<^verbatim>\<open>s.rsplit(sep, 1)[0]\<close>: what precedes the last separator, or all of \<open>s\<close> without one.\<close>

definition rsplit1_head :: "char \<Rightarrow> string \<Rightarrow> string" where
  "rsplit1_head sep s =
     (if sep \<in> set s then rev (tl (dropWhile (\<lambda>c. c \<noteq> sep) (rev s))) else s)"

text \<open>
  A Python \<^verbatim>\<open>dict\<close> keeps insertion order: an association list in which a new key goes
  to the end and an existing key keeps its place (\<^const>\<open>AList.update\<close>).
  \<open>dict_append d k x\<close> is \<^verbatim>\<open>d[k].append(x)\<close> where a missing key starts from the empty list
  (the \<^verbatim>\<open>defaultdict(list)\<close> of \<^verbatim>\<open>messages_by_agent\<close>, and the explicit test of
  \<^verbatim>\<open>add_step\<close>).
\<close>

definition dict_append :: "(string \<times> 'a list) list \<Rightarrow> string \<Rightarrow> 'a \<Rightarrow> (string \<times> 'a list) list" where
  "dict_append d k x =
     (case map_of d k of
        None \<Rightarrow> AList.update k [x] d
      | Some xs \<Rightarrow> AList.update k (xs @ [x]) d)"

text \<open>
  The list stored under \<open>k\<close>, empty when there is none: how the statements below read
  \<^verbatim>\<open>messages_by_agent\<close> (no key is inserted).
\<close>

definition dict_get :: "(string \<times> 'a list) list \<Rightarrow> string \<Rightarrow> 'a list" where
  "dict_get d k = (case map_of d k of None \<Rightarrow> [] | Some xs \<Rightarrow> xs)"

section \<open>TapeView\<close>

record tape_view =
  agent_name :: string
  agent_full_name :: string
  steps :: "step list"
  steps_by_kind :: "(string \<times> step list) list"
  next_node :: int
  last_prompt_id :: string
  outputs_by_subagent :: "(string \<times> step) list"

text \<open>\<^verbatim>\<open>TapeView(agent_name=n, agent_full_name=f)\<close> with the defaults of the class.\<close>

definition TapeView :: "string \<Rightarrow> string \<Rightarrow> tape_view" where
  "TapeView n f =
     \<lparr>agent_name = n, agent_full_name = f, steps = [], steps_by_kind = [],
      next_node = 0, last_prompt_id = [], outputs_by_subagent = []\<rparr>"

definition add_step :: "tape_view \<Rightarrow> step \<Rightarrow> tape_view" where
  "add_step v s =
     v\<lparr>steps := steps v @ [s],
       steps_by_kind := dict_append (steps_by_kind v) (step_kind s) s\<rparr>"

text \<open>The argument of \<^verbatim>\<open>get_output\<close>: \<^verbatim>\<open>int | str\<close>.\<close>

datatype output_ref = Index int | Name string

text \<open>Python list indexing: a negative index counts from the end.\<close>

definition list_index :: "'a list \<Rightarrow> int \<Rightarrow> error + 'a" where
  "list_index xs i =
     (if 0 \<le> i \<and> i < int (length xs) then Inr (xs ! nat i)
      else if i < 0 \<and> - int (length xs) \<le> i then Inr (xs ! nat (int (length xs) + i))
      else Inl IndexError)"

fun get_output :: "tape_view \<Rightarrow> output_ref \<Rightarrow> error + step" where
  "get_output v (Index i) = list_index (map snd (outputs_by_subagent v)) i"
| "get_output v (Name n) =
     (case map_of (outputs_by_subagent v) n of None \<Rightarrow> Inl KeyError | Some s \<Rightarrow> Inr s)"

section \<open>TapeViewStack\<close>

record tape_view_stack =
  stack :: "tape_view list"
  messages_by_agent :: "(string \<times> step list) list"

text \<open>
  The property \<^verbatim>\<open>top\<close>, \<^verbatim>\<open>self.stack[-1]\<close>: the last element, \<^verbatim>\<open>IndexError\<close> on an
  empty stack.
\<close>

definition stack_top :: "tape_view_stack \<Rightarrow> error + tape_view" where
  "stack_top st = (if stack st = [] then Inl IndexError else Inr (last (stack st)))"

text \<open>Assignment to a field of the object \<^verbatim>\<open>self.stack[-1]\<close>: the last frame is replaced.\<close>

definition set_top :: "tape_view_stack \<Rightarrow> tape_view \<Rightarrow> tape_view_stack" where
  "set_top st v = st\<lparr>stack := butlast (stack st) @ [v]\<rparr>"

definition is_step_by_active_agent :: "tape_view_stack \<Rightarrow> step \<Rightarrow> error + bool" where
  "is_step_by_active_agent st step =
     (if \<not> is_AgentStep step then Inr False
      else (case step_by step of
              None \<Rightarrow> Inl AttributeError
            | Some b \<Rightarrow>
              (case stack_top st of
                 Inl e \<Rightarrow> Inl e
               | Inr t \<Rightarrow>
                   Inr (drop 1 (str_split CHR ''/'' b) = drop 1 (str_split CHR ''/'' (agent_full_name t))))))"

definition put_new_view_on_stack :: "tape_view_stack \<Rightarrow> step \<Rightarrow> error + tape_view_stack" where
  "put_new_view_on_stack st step =
     (case stack_top st of
        Inl e \<Rightarrow> Inl e
      | Inr t \<Rightarrow>
        (case step of
           Call b p c a \<Rightarrow>
             (let st1 = set_top st (add_step t step);
                  st2 = st1\<lparr>stack := stack st1 @ [TapeView a (agent_full_name t @ ''/'' @ a)]\<rparr>;
                  receiver = b @ ''/'' @ a;
                  m1 = dict_append (messages_by_agent st2) b step;
                  m2 = dict_append m1 receiver step
              in Inr (st2\<lparr>messages_by_agent := m2\<rparr>))
         | _ \<Rightarrow> Inl AttributeError))"

fun broadcast_loop :: "(string \<times> step list) list \<Rightarrow> string \<Rightarrow> step \<Rightarrow> string list \<Rightarrow> (string \<times> step list) list" where
  "broadcast_loop m b step [] = m"
| "broadcast_loop m b step (to # tos) =
     broadcast_loop (dict_append m (b @ ''/'' @ to) step) b step tos"

definition broadcast :: "tape_view_stack \<Rightarrow> step \<Rightarrow> error + tape_view_stack" where
  "broadcast st step =
     (case stack_top st of
        Inl e \<Rightarrow> Inl e
      | Inr t \<Rightarrow>
        (case step of
           Broadcast b p c f tos \<Rightarrow>
             (let st1 = set_top st (add_step t step)
              in Inr (st1\<lparr>messages_by_agent := broadcast_loop (messages_by_agent st1) b step tos\<rparr>))
         | _ \<Rightarrow> Inl AttributeError))"

text \<open>
  The loop of \<^verbatim>\<open>pop_view_from_stack\<close> over \<^verbatim>\<open>reversed(top.steps)\<close>: the first step that is
  not a \<^verbatim>\<open>Call\<close> or \<^verbatim>\<open>Respond\<close> and not by the active agent, if any (\<^verbatim>\<open>and\<close> short-circuits).
\<close>

fun select_output :: "tape_view_stack \<Rightarrow> step list \<Rightarrow> error + step option" where
  "select_output st [] = Inr None"
| "select_output st (s # ss) =
     (if is_Call s \<or> is_Respond s then select_output st ss
      else (case is_step_by_active_agent st s of
              Inl e \<Rightarrow> Inl e
            | Inr act \<Rightarrow> if \<not> act then Inr (Some s) else select_output st ss))"

definition pop_view_from_stack :: "tape_view_stack \<Rightarrow> step \<Rightarrow> error + tape_view_stack" where
  "pop_view_from_stack st step =
     (case stack_top st of
        Inl e \<Rightarrow> Inl e
      | Inr t \<Rightarrow>
        (let st1 = st\<lparr>stack := butlast (stack st)\<rparr> in
         case stack_top st1 of
           Inl e \<Rightarrow> Inl e
         | Inr new_top0 \<Rightarrow>
           (let new_top1 = new_top0\<lparr>next_node := next_node new_top0 + 1\<rparr>;
                st2 = set_top st1 new_top1
            in case select_output st2 (rev (steps t)) of
                 Inl e \<Rightarrow> Inl e
               | Inr sel \<Rightarrow>
                 (let new_top2 =
                        (case sel of
                           None \<Rightarrow> new_top1
                         | Some top_step \<Rightarrow>
                             (add_step new_top1 top_step)
                               \<lparr>outputs_by_subagent :=
                                  AList.update (agent_name t) top_step (outputs_by_subagent new_top1)\<rparr>)
                  in case step_by step of
                       None \<Rightarrow> Inl AttributeError
                     | Some b \<Rightarrow>
                       (let receiver = rsplit1_head CHR ''/'' b;
                            m1 = dict_append (messages_by_agent st2) b step;
                            m2 = dict_append m1 receiver step
                        in Inr ((set_top st2 (add_step new_top2 step))\<lparr>messages_by_agent := m2\<rparr>))))))"

text \<open>The \<^verbatim>\<open>match\<close> statement of \<^verbatim>\<open>update\<close>; \<open>t\<close> is \<^verbatim>\<open>top = self.stack[-1]\<close> read before it.\<close>

fun dispatch :: "tape_view_stack \<Rightarrow> tape_view \<Rightarrow> step \<Rightarrow> error + tape_view_stack" where
  "dispatch st t (Call b p c a) = put_new_view_on_stack st (Call b p c a)"
| "dispatch st t (Broadcast b p c f tos) = broadcast st (Broadcast b p c f tos)"
| "dispatch st t (Respond b p c) = pop_view_from_stack st (Respond b p c)"
| "dispatch st t (Jump k b p n) = Inr (set_top st (t\<lparr>next_node := n\<rparr>))"
| "dispatch st t (AgentStep k b p c) = Inr (set_top st (add_step t (AgentStep k b p c)))"
| "dispatch st t (Observation k c) = Inr (set_top st (add_step t (Observation k c)))"
| "dispatch st t (OtherStep k) = Inl ValueError"

definition update :: "tape_view_stack \<Rightarrow> step \<Rightarrow> error + tape_view_stack" where
  "update st step =
     (case stack_top st of
        Inl e \<Rightarrow> Inl e
      | Inr t0 \<Rightarrow>
        (case dispatch st t0 step of
           Inl e \<Rightarrow> Inl e
         | Inr st1 \<Rightarrow>
           (case stack_top st1 of
              Inl e \<Rightarrow> Inl e
            | Inr t \<Rightarrow>
              (case is_step_by_active_agent st1 step of
                 Inl e \<Rightarrow> Inl e
               | Inr act \<Rightarrow>
                   if act then
                     (case step_prompt_id step of
                        None \<Rightarrow> Inl AttributeError
                      | Some pid \<Rightarrow>
                          (let t1 = (if \<not> is_Jump step \<and> pid \<noteq> last_prompt_id t
                                     then t\<lparr>next_node := next_node t + 1\<rparr> else t)
                           in Inr (set_top st1 (t1\<lparr>last_prompt_id := pid\<rparr>))))
                   else Inr st1))))"

text \<open>The \<^verbatim>\<open>for step in tape.steps: stack.update(step)\<close> loop; an exception ends it.\<close>

fun update_all :: "tape_view_stack \<Rightarrow> step list \<Rightarrow> error + tape_view_stack" where
  "update_all st [] = Inr st"
| "update_all st (s # ss) =
     (case update st s of Inl e \<Rightarrow> Inl e | Inr st' \<Rightarrow> update_all st' ss)"

text \<open>\<^verbatim>\<open>TapeViewStack(stack=[TapeView(agent_name="root", agent_full_name="root")])\<close>.\<close>

definition root_stack :: tape_view_stack where
  "root_stack = \<lparr>stack = [TapeView ''root'' ''root''], messages_by_agent = []\<rparr>"

text \<open>
  Modelled from the spec: \<^verbatim>\<open>Tape\<close> (of \<^verbatim>\<open>tapeagents.core\<close>) is an ordered sequence of
  steps with an identity; \<open>tape_id\<close> is the value of \<^verbatim>\<open>id(tape)\<close>. The module-level
  \<^verbatim>\<open>_view_stack_cache\<close> is passed in and returned.
\<close>

record tape =
  tape_id :: nat
  tape_steps :: "step list"

type_synonym view_stack_cache = "nat \<rightharpoonup> tape_view_stack"

definition compute :: "view_stack_cache \<Rightarrow> tape \<Rightarrow> (error + tape_view_stack) \<times> view_stack_cache" where
  "compute cache tp =
     (case cache (tape_id tp) of
        Some cached_view_stack \<Rightarrow> (Inr cached_view_stack, cache)
      | None \<Rightarrow>
        (case update_all root_stack (tape_steps tp) of
           Inl e \<Rightarrow> (Inl e, cache)
         | Inr st \<Rightarrow> (Inr st, cache(tape_id tp \<mapsto> st))))"

section \<open>Auxiliary notions for the proofs\<close>

text \<open>
  The path comparison of \<^verbatim>\<open>is_step_by_active_agent\<close> against a given frame; on a non-empty
  stack \<open>is_step_by_active_agent\<close> returns it for the top frame.
\<close>

definition active_in :: "tape_view \<Rightarrow> step \<Rightarrow> bool" where
  "active_in v s =
     (case step_by s of
        None \<Rightarrow> False
      | Some b \<Rightarrow> drop 1 (str_split CHR ''/'' b) = drop 1 (str_split CHR ''/'' (agent_full_name v)))"

text \<open>The test of the output loop of \<^verbatim>\<open>pop_view_from_stack\<close>, for the caller frame \<open>v\<close>.\<close>

definition eligible :: "tape_view \<Rightarrow> step \<Rightarrow> bool" where
  "eligible v s \<longleftrightarrow> \<not> is_Call s \<and> \<not> is_Respond s \<and> \<not> active_in v s"

text \<open>
  The caller frame \<open>c\<close> after the frame \<open>t\<close> above it was popped, before the
  \<^verbatim>\<open>Respond\<close> step itself is added.
\<close>

definition popped_top :: "tape_view \<Rightarrow> tape_view \<Rightarrow> tape_view" where
  "popped_top c t =
     (case find (eligible c) (rev (steps t)) of
        None \<Rightarrow> c\<lparr>next_node := next_node c + 1\<rparr>
      | Some x \<Rightarrow> (add_step (c\<lparr>next_node := next_node c + 1\<rparr>) x)
                    \<lparr>outputs_by_subagent := AList.update (agent_name t) x (outputs_by_subagent c)\<rparr>)"

text \<open>The prompt bookkeeping at the end of \<^verbatim>\<open>update\<close>, on the top frame \<open>t\<close>.\<close>

definition note_prompt :: "tape_view \<Rightarrow> step \<Rightarrow> tape_view" where
  "note_prompt t s =
     (if active_in t s then
        (case step_prompt_id s of
           None \<Rightarrow> t
         | Some pid \<Rightarrow>
             (if \<not> is_Jump s \<and> pid \<noteq> last_prompt_id t
              then t\<lparr>next_node := next_node t + 1\<rparr> else t)\<lparr>last_prompt_id := pid\<rparr>)
      else t)"

text \<open>The steps of the end-to-end scenario, and a stack of depth two.\<close>

definition scenario_call :: step where
  "scenario_call = Call ''root'' [] [] ''B''"

definition scenario_result :: step where
  "scenario_result = AgentStep ''thought'' ''root/B'' ''p1'' ''done''"

definition scenario_respond :: step where
  "scenario_respond = Respond ''root/B'' [] []"

definition scenario_steps :: "step list" where
  "scenario_steps = [scenario_call, scenario_result, scenario_respond]"

definition two_frame_stack :: tape_view_stack where
  "two_frame_stack =
     \<lparr>stack = [TapeView ''root'' ''root'', TapeView ''B'' ''root/B''], messages_by_agent = []\<rparr>"

text \<open>
  A caller's input echoed into the callee's frame, the callee's own result, and a nested
  call with its response; a stack whose top frame (agent \<open>B\<close>) holds given steps.
\<close>

definition input_a :: step where
  "input_a = AgentStep ''user_input'' ''root'' [] ''question''"

definition result_x :: step where
  "result_x = AgentStep ''thought'' ''root/B'' ''p1'' ''answer''"

definition nested_call :: step where
  "nested_call = Call ''root/B'' [] [] ''C''"

definition nested_respond :: step where
  "nested_respond = Respond ''root/B/C'' [] []"

definition callee_stack :: "step list \<Rightarrow> tape_view_stack" where
  "callee_stack ss =
     \<lparr>stack = [TapeView ''root'' ''root'', (TapeView ''B'' ''root/B'')\<lparr>steps := ss\<rparr>],
      messages_by_agent = []\<rparr>"

text \<open>\<^verbatim>\<open>stack.top.next_node\<close> of the result of a run, when there is one.\<close>

fun top_next_node :: "error + tape_view_stack \<Rightarrow> int option" where
  "top_next_node (Inl e) = None"
| "top_next_node (Inr st) = (case stack_top st of Inl e \<Rightarrow> None | Inr t \<Rightarrow> Some (next_node t))"

text \<open>Three steps of the root agent with the prompt ids \<open>p1\<close>, \<open>p1\<close>, \<open>p2\<close>.\<close>

definition node_steps :: "step list" where
  "node_steps =
     [AgentStep ''thought'' ''root'' ''p1'' ''a'',
      AgentStep ''thought'' ''root'' ''p1'' ''b'',
      AgentStep ''thought'' ''root'' ''p2'' ''c'']"

text \<open>A frame with the outputs of two subagents, \<open>B\<close> first.\<close>

definition two_outputs :: tape_view where
  "two_outputs = (TapeView ''root'' ''root'')\<lparr>outputs_by_subagent := [(''B'', result_x), (''C'', input_a)]\<rparr>"

text \<open>No \<^verbatim>\<open>Jump\<close> among the steps a frame has recorded.\<close>

definition jump_free :: "tape_view \<Rightarrow> bool" where
  "jump_free v \<longleftrightarrow>
     (\<forall>x\<in>set (steps v). \<not> is_Jump x) \<and>
     (\<forall>kv\<in>set (steps_by_kind v). \<forall>x\<in>set (snd kv). \<not> is_Jump x)"

text \<open>The end-to-end scenario with a \<^verbatim>\<open>Jump\<close> of the subagent in it.\<close>

definition jump_tape :: "step list" where
  "jump_tape = [scenario_call, Jump ''jump'' ''root/B'' ''p1'' 3, scenario_result, scenario_respond]"

text \<open>
  A run in which the subagent \<open>B\<close> receives the caller's input, produces its result and
  then calls \<open>C\<close>, whose output the nested \<^verbatim>\<open>Respond\<close> copies into the frame of \<open>B\<close>;
  the steps of the top frame and an output of the top frame after a run.
\<close>

definition nested_output :: step where
  "nested_output = AgentStep ''thought'' ''root/B/C'' ''p2'' ''sub-answer''"

definition nested_tape :: "step list" where
  "nested_tape =
     [scenario_call, input_a, result_x, nested_call, nested_output, nested_respond, scenario_respond]"

fun top_steps :: "error + tape_view_stack \<Rightarrow> step list option" where
  "top_steps (Inl e) = None"
| "top_steps (Inr st) = (case stack_top st of Inl e \<Rightarrow> None | Inr t \<Rightarrow> Some (steps t))"

fun top_output :: "error + tape_view_stack \<Rightarrow> output_ref \<Rightarrow> error + step" where
  "top_output (Inl e) r = Inl e"
| "top_output (Inr st) r = (case stack_top st of Inl e \<Rightarrow> Inl e | Inr t \<Rightarrow> get_output t r)"

section \<open>Basic facts\<close>

lemma stack_top_nonempty: "stack st \<noteq> [] \<Longrightarrow> stack_top st = Inr (last (stack st))"
  by (simp add: stack_top_def)

lemma stack_top_Inr: "stack_top st = Inr t \<Longrightarrow> stack st \<noteq> [] \<and> t = last (stack st)"
  by (auto simp: stack_top_def split: if_splits)

lemma stack_set_top: "stack (set_top st v) = butlast (stack st) @ [v]"
  by (simp add: set_top_def)

lemma messages_set_top: "messages_by_agent (set_top st v) = messages_by_agent st"
  by (simp add: set_top_def)

lemma length_set_top: "stack st \<noteq> [] \<Longrightarrow> length (stack (set_top st v)) = length (stack st)"
  by (simp add: set_top_def)

lemma step_by_None_iff: "step_by s = None \<longleftrightarrow> \<not> is_AgentStep s"
  by (cases s) simp_all

lemma step_prompt_id_None_iff: "step_prompt_id s = None \<longleftrightarrow> \<not> is_AgentStep s"
  by (cases s) simp_all

lemma is_step_by_active_agent_nonempty:
  "stack st \<noteq> [] \<Longrightarrow> is_step_by_active_agent st s = Inr (active_in (last (stack st)) s)"
  by (cases s) (simp_all add: is_step_by_active_agent_def active_in_def stack_top_nonempty)

lemma put_new_view_length:
  "put_new_view_on_stack st s = Inr st' \<Longrightarrow> length (stack st') = Suc (length (stack st))"
  by (auto simp: put_new_view_on_stack_def Let_def stack_set_top dest!: stack_top_Inr split: sum.splits step.splits)

lemma broadcast_length:
  "broadcast st s = Inr st' \<Longrightarrow> length (stack st') = length (stack st)"
  by (auto simp: broadcast_def Let_def stack_set_top dest!: stack_top_Inr split: sum.splits step.splits)

lemma select_output_find:
  "stack st \<noteq> [] \<Longrightarrow> select_output st ss = Inr (find (eligible (last (stack st))) ss)"
  by (induction ss) (simp_all add: is_step_by_active_agent_nonempty eligible_def)

lemma eligible_next_node: "eligible (c\<lparr>next_node := n\<rparr>) = eligible c"
  by (auto simp: eligible_def active_in_def fun_eq_iff split: option.splits)

lemma two_frames:
  assumes "1 < length xs"
  shows "\<exists>fs c t. xs = fs @ [c, t]"
proof (cases xs rule: rev_cases)
  case Nil
  with assms show ?thesis by simp
next
  case (snoc ys t)
  with assms have "ys \<noteq> []" by auto
  then obtain fs c where "ys = fs @ [c]" by (cases ys rule: rev_cases) auto
  with snoc show ?thesis by simp
qed

lemma pop_view_from_stack_two:
  assumes "stack st = fs @ [c, t]"
  shows "pop_view_from_stack st s =
     (case step_by s of
        None \<Rightarrow> Inl AttributeError
      | Some b \<Rightarrow>
          Inr \<lparr>stack = fs @ [add_step (popped_top c t) s],
               messages_by_agent =
                 dict_append (dict_append (messages_by_agent st) b s) (rsplit1_head CHR ''/'' b) s\<rparr>)"
proof -
  have top: "stack_top st = Inr t" using assms by (simp add: stack_top_def)
  have bl: "butlast (stack st) = fs @ [c]" using assms by (simp add: butlast_append)
  have top1: "stack_top (st\<lparr>stack := fs @ [c]\<rparr>) = Inr c"
    by (simp add: stack_top_def)
  have sel: "select_output (st\<lparr>stack := fs @ [c\<lparr>next_node := next_node c + 1\<rparr>]\<rparr>) ss
               = Inr (find (eligible c) ss)" for ss
    by (simp add: select_output_find eligible_next_node)
  show ?thesis
    unfolding pop_view_from_stack_def
    by (simp add: top top1 sel Let_def popped_top_def set_top_def bl split: option.splits)
qed

lemma pop_view_from_stack_root:
  assumes "length (stack st) \<le> 1"
  shows "pop_view_from_stack st s = Inl IndexError"
proof (cases "stack st")
  case Nil
  then show ?thesis by (simp add: pop_view_from_stack_def stack_top_def)
next
  case (Cons f fs)
  with assms have "fs = []" by simp
  with Cons show ?thesis by (simp add: pop_view_from_stack_def stack_top_def Let_def)
qed

lemma pop_view_length:
  assumes "pop_view_from_stack st s = Inr st'"
  shows "Suc (length (stack st')) = length (stack st) \<and> stack st' \<noteq> []"
proof -
  have "\<not> length (stack st) \<le> 1" using assms pop_view_from_stack_root[of st s] by auto
  then have "1 < length (stack st)" by simp
  then obtain fs c t where st: "stack st = fs @ [c, t]" using two_frames by blast
  from assms show ?thesis
    by (auto simp: pop_view_from_stack_two[OF st] st split: option.splits)
qed

lemma dispatch_length:
  "stack st \<noteq> [] \<Longrightarrow> dispatch st t s = Inr st1 \<Longrightarrow>
     stack st1 \<noteq> [] \<and>
     int (length (stack st1)) = int (length (stack st)) + (if is_Call s then 1 else 0) - (if is_Respond s then 1 else 0)"
  by (cases s) (auto simp: stack_set_top dest: put_new_view_length broadcast_length pop_view_length)

lemma active_in_prompt_id: "active_in t s \<Longrightarrow> \<exists>pid. step_prompt_id s = Some pid"
  by (cases s) (simp_all add: active_in_def)

lemma set_top_last: "stack st \<noteq> [] \<Longrightarrow> set_top st (last (stack st)) = st"
  by (simp add: set_top_def)

lemma update_empty: "stack st = [] \<Longrightarrow> update st s = Inl IndexError"
  by (simp add: update_def stack_top_def)

lemma update_eq:
  assumes "stack st \<noteq> []"
  shows "update st s =
     (case dispatch st (last (stack st)) s of
        Inl e \<Rightarrow> Inl e
      | Inr st1 \<Rightarrow> Inr (set_top st1 (note_prompt (last (stack st1)) s)))"
proof (cases "dispatch st (last (stack st)) s")
  case (Inl e)
  then show ?thesis using assms by (simp add: update_def stack_top_nonempty)
next
  case (Inr st1)
  then have ne: "stack st1 \<noteq> []" using assms dispatch_length by blast
  show ?thesis
  proof (cases "active_in (last (stack st1)) s")
    case True
    then obtain pid where "step_prompt_id s = Some pid" using active_in_prompt_id by blast
    with True Inr ne assms show ?thesis
      by (simp add: update_def stack_top_nonempty is_step_by_active_agent_nonempty note_prompt_def Let_def)
  next
    case False
    with Inr ne assms show ?thesis
      by (simp add: update_def stack_top_nonempty is_step_by_active_agent_nonempty note_prompt_def set_top_last)
  qed
qed

lemma update_length:
  assumes "update st s = Inr st'"
  shows "stack st \<noteq> [] \<and> stack st' \<noteq> [] \<and>
     int (length (stack st')) = int (length (stack st)) + (if is_Call s then 1 else 0) - (if is_Respond s then 1 else 0)"
proof -
  have ne: "stack st \<noteq> []" using assms update_empty[of st s] by auto
  from assms obtain st1 where d: "dispatch st (last (stack st)) s = Inr st1"
    and st': "st' = set_top st1 (note_prompt (last (stack st1)) s)"
    by (auto simp: update_eq[OF ne] split: sum.splits)
  from dispatch_length[OF ne d] show ?thesis using ne st' by (simp add: stack_set_top)
qed

lemma update_all_append:
  "update_all st (xs @ ys) = (case update_all st xs of Inl e \<Rightarrow> Inl e | Inr st' \<Rightarrow> update_all st' ys)"
  by (induction xs arbitrary: st) (simp_all split: sum.splits)

lemma update_all_length:
  "update_all st ss = Inr st' \<Longrightarrow> stack st \<noteq> [] \<Longrightarrow>
     stack st' \<noteq> [] \<and>
     int (length (stack st')) = int (length (stack st)) + int (length (filter is_Call ss)) - int (length (filter is_Respond ss))"
proof (induction ss arbitrary: st)
  case Nil
  then show ?case by simp
next
  case (Cons s ss)
  from Cons.prems(1) obtain st1 where u: "update st s = Inr st1" and r: "update_all st1 ss = Inr st'"
    by (auto split: sum.splits)
  from update_length[OF u] Cons.IH[OF r] show ?case by auto
qed


lemma put_new_view_total:
  "stack st \<noteq> [] \<Longrightarrow> is_Call s \<Longrightarrow> \<exists>st'. put_new_view_on_stack st s = Inr st'"
  by (cases s) (simp_all add: put_new_view_on_stack_def stack_top_nonempty Let_def)

lemma call_total:
  assumes "stack st \<noteq> []" "is_Call s"
  shows "\<exists>st'. update st s = Inr st'"
proof -
  from put_new_view_total[OF assms] obtain st1 where "put_new_view_on_stack st s = Inr st1" by blast
  with assms(2) have "dispatch st (last (stack st)) s = Inr st1" by (cases s) simp_all
  then show ?thesis by (simp add: update_eq[OF assms(1)])
qed

lemma respond_total:
  assumes "1 < length (stack st)" "is_Respond s"
  shows "\<exists>st'. update st s = Inr st'"
proof -
  from assms(1) obtain fs c t where st: "stack st = fs @ [c, t]" using two_frames by blast
  from assms(2) obtain b p c' where s: "s = Respond b p c'" by (cases s) simp_all
  have ne: "stack st \<noteq> []" using st by simp
  show ?thesis by (simp add: update_eq[OF ne] s pop_view_from_stack_two[OF st])
qed

lemma note_prompt_fields:
  "agent_name (note_prompt v s) = agent_name v"
  "agent_full_name (note_prompt v s) = agent_full_name v"
  "steps (note_prompt v s) = steps v"
  "steps_by_kind (note_prompt v s) = steps_by_kind v"
  "outputs_by_subagent (note_prompt v s) = outputs_by_subagent v"
  by (simp_all add: note_prompt_def split: option.splits)

lemma add_step_fields:
  "agent_name (add_step v s) = agent_name v"
  "agent_full_name (add_step v s) = agent_full_name v"
  "steps (add_step v s) = steps v @ [s]"
  "next_node (add_step v s) = next_node v"
  "last_prompt_id (add_step v s) = last_prompt_id v"
  "outputs_by_subagent (add_step v s) = outputs_by_subagent v"
  by (simp_all add: add_step_def)

lemma update_Respond_two:
  assumes "stack st = fs @ [c, t]"
  shows "update st (Respond b p ct) =
     Inr \<lparr>stack = fs @ [note_prompt (add_step (popped_top c t) (Respond b p ct)) (Respond b p ct)],
          messages_by_agent =
            dict_append (dict_append (messages_by_agent st) b (Respond b p ct))
              (rsplit1_head CHR ''/'' b) (Respond b p ct)\<rparr>"
proof -
  have ne: "stack st \<noteq> []" using assms by simp
  show ?thesis
    by (simp add: update_eq[OF ne] pop_view_from_stack_two[OF assms] set_top_def)
qed

lemma is_step_by_active_agent_top:
  "is_step_by_active_agent (st\<lparr>stack := fs @ [c]\<rparr>) y = Inr (active_in c y)"
  by (simp add: is_step_by_active_agent_nonempty)

lemma find_app:
  "find P (xs @ ys) = (case find P xs of None \<Rightarrow> find P ys | Some x \<Rightarrow> Some x)"
  by (induction xs) simp_all

lemma find_last_eligible:
  assumes "P x" "\<forall>y\<in>set suf. \<not> P y"
  shows "find P (rev (pre @ x # suf)) = Some x"
proof -
  have "find P (rev suf) = None" using assms(2) by (simp add: find_None_iff)
  then show ?thesis using assms(1) by (simp add: find_app)
qed

lemma find_none_eligible: "\<forall>y\<in>set ys. \<not> P y \<Longrightarrow> find P (rev ys) = None"
  by (simp add: find_None_iff)

lemma map_of_update_same: "map_of (AList.update k v al) k = Some v"
  by (simp add: update_conv')

lemma map_of_dict_append:
  "map_of (dict_append d k x) = (map_of d)(k \<mapsto> dict_get d k @ [x])"
  by (simp add: dict_append_def dict_get_def update_conv' split: option.splits)

lemma dict_get_dict_append:
  "dict_get (dict_append d k x) k' = (if k' = k then dict_get d k @ [x] else dict_get d k')"
  by (simp add: dict_get_def map_of_dict_append)

lemma active_in_cong: "agent_full_name v = agent_full_name w \<Longrightarrow> active_in v s = active_in w s"
  by (simp add: active_in_def split: option.splits)

lemma set_top_set_top: "set_top (set_top st v) w = set_top st w"
  by (simp add: set_top_def)

lemma last_set_top: "last (stack (set_top st v)) = v"
  by (simp add: set_top_def)

lemma update_AgentStep:
  assumes "stack st \<noteq> []"
  shows "update st (AgentStep k b p c) =
     Inr (set_top st (note_prompt (add_step (last (stack st)) (AgentStep k b p c)) (AgentStep k b p c)))"
  by (simp add: update_eq[OF assms] last_set_top set_top_set_top)

lemma note_prompt_active_AgentStep:
  assumes "active_in v (AgentStep k b p c)"
  shows "next_node (note_prompt v (AgentStep k b p c)) =
           (if p \<noteq> last_prompt_id v then next_node v + 1 else next_node v)"
    and "last_prompt_id (note_prompt v (AgentStep k b p c)) = p"
  using assms by (simp_all add: note_prompt_def)

lemma TapeView_fields:
  "agent_name (TapeView n f) = n"
  "agent_full_name (TapeView n f) = f"
  "steps (TapeView n f) = []"
  "steps_by_kind (TapeView n f) = []"
  "next_node (TapeView n f) = 0"
  "last_prompt_id (TapeView n f) = []"
  "outputs_by_subagent (TapeView n f) = []"
  by (simp_all add: TapeView_def)

lemma dict_get_Nil: "dict_get [] k = []"
  by (simp add: dict_get_def)

lemma update_Call:
  assumes "stack st \<noteq> []"
  shows "update st (Call b p c a) =
     Inr \<lparr>stack = butlast (stack st) @
                   [add_step (last (stack st)) (Call b p c a),
                    note_prompt (TapeView a (agent_full_name (last (stack st)) @ ''/'' @ a)) (Call b p c a)],
          messages_by_agent =
            dict_append (dict_append (messages_by_agent st) b (Call b p c a)) (b @ ''/'' @ a) (Call b p c a)\<rparr>"
  by (simp add: update_eq[OF assms] put_new_view_on_stack_def stack_top_nonempty[OF assms] Let_def
      set_top_def butlast_append)

lemma update_Broadcast:
  assumes "stack st \<noteq> []"
  shows "update st (Broadcast b p c f tos) =
     Inr \<lparr>stack = butlast (stack st) @
                   [note_prompt (add_step (last (stack st)) (Broadcast b p c f tos)) (Broadcast b p c f tos)],
          messages_by_agent = broadcast_loop (messages_by_agent st) b (Broadcast b p c f tos) tos\<rparr>"
  by (simp add: update_eq[OF assms] broadcast_def stack_top_nonempty[OF assms] Let_def set_top_def butlast_append)

lemma dispatch_error_iff:
  assumes "stack st \<noteq> []"
  shows "dispatch st (last (stack st)) s = Inl e \<longleftrightarrow>
           (is_Respond s \<and> length (stack st) = 1 \<and> e = IndexError) \<or>
           ((\<exists>k. s = OtherStep k) \<and> e = ValueError)"
proof (cases s)
  case (Call b p c a)
  then show ?thesis
    by (simp add: put_new_view_on_stack_def stack_top_nonempty[OF assms] Let_def)
next
  case (Respond b p c)
  show ?thesis
  proof (cases "length (stack st) \<le> 1")
    case True
    with assms have "length (stack st) = 1" by (cases "stack st") simp_all
    with Respond True show ?thesis by (auto simp: pop_view_from_stack_root)
  next
    case False
    then have "1 < length (stack st)" by simp
    then obtain fs c' t where "stack st = fs @ [c', t]" using two_frames by blast
    then show ?thesis using Respond by (simp add: pop_view_from_stack_two)
  qed
next
  case (Broadcast b p c f tos)
  then show ?thesis by (simp add: broadcast_def stack_top_nonempty[OF assms] Let_def)
qed auto

lemma set_AList_update: "set (AList.update k v al) \<subseteq> insert (k, v) (set al)"
  by (induction al) auto

lemma dict_append_values:
  assumes "kv \<in> set (dict_append d k x)" "y \<in> set (snd kv)"
  shows "y = x \<or> (\<exists>kv'\<in>set d. y \<in> set (snd kv'))"
proof (cases "map_of d k")
  case None
  with assms(1) have "kv \<in> insert (k, [x]) (set d)"
    using set_AList_update[of k "[x]" d] by (auto simp: dict_append_def)
  with assms(2) show ?thesis by auto
next
  case (Some xs)
  then have in_d: "(k, xs) \<in> set d" by (rule map_of_SomeD)
  from Some assms(1) have "kv \<in> insert (k, xs @ [x]) (set d)"
    using set_AList_update[of k "xs @ [x]" d] by (auto simp: dict_append_def)
  with assms(2) in_d show ?thesis by force
qed

lemma jump_free_add_step: "jump_free v \<Longrightarrow> \<not> is_Jump s \<Longrightarrow> jump_free (add_step v s)"
  unfolding jump_free_def add_step_def
  by (auto dest: dict_append_values)

lemma jump_free_note_prompt: "jump_free (note_prompt v s) = jump_free v"
  by (simp add: jump_free_def note_prompt_fields)

lemma jump_free_next_node: "jump_free (v\<lparr>next_node := n\<rparr>) = jump_free v"
  by (simp add: jump_free_def)

lemma jump_free_outputs: "jump_free (v\<lparr>outputs_by_subagent := n\<rparr>) = jump_free v"
  by (simp add: jump_free_def)

lemma jump_free_TapeView: "jump_free (TapeView a f)"
  by (simp add: jump_free_def TapeView_def)

lemma find_Some_in_set: "find P xs = Some x \<Longrightarrow> x \<in> set xs"
  by (induction xs) (auto split: if_splits)

lemma jump_free_popped_top:
  assumes "jump_free c" "jump_free t"
  shows "jump_free (popped_top c t)"
proof (cases "find (eligible c) (rev (steps t))")
  case None
  then show ?thesis using assms(1) by (simp add: popped_top_def jump_free_next_node)
next
  case (Some x)
  then have "x \<in> set (steps t)" using find_Some_in_set by fastforce
  with assms(2) have "\<not> is_Jump x" by (simp add: jump_free_def)
  with assms(1) Some show ?thesis
    by (simp add: popped_top_def jump_free_outputs jump_free_add_step jump_free_next_node)
qed

lemma update_Jump:
  assumes "stack st \<noteq> []"
  shows "update st (Jump k b p n) =
     Inr (set_top st (note_prompt ((last (stack st))\<lparr>next_node := n\<rparr>) (Jump k b p n)))"
  by (simp add: update_eq[OF assms] last_set_top set_top_set_top)

lemma update_Observation:
  assumes "stack st \<noteq> []"
  shows "update st (Observation k c) =
     Inr (set_top st (note_prompt (add_step (last (stack st)) (Observation k c)) (Observation k c)))"
  by (simp add: update_eq[OF assms] last_set_top set_top_set_top)

lemma in_set_top: "v \<in> set (stack (set_top st w)) \<Longrightarrow> v = w \<or> v \<in> set (stack st)"
  by (auto simp: set_top_def dest: in_set_butlastD)

lemma update_jump_free:
  assumes "update st s = Inr st'" and inv: "\<forall>v\<in>set (stack st). jump_free v"
  shows "\<forall>v\<in>set (stack st'). jump_free v"
proof -
  have ne: "stack st \<noteq> []" using assms(1) update_empty[of st s] by auto
  then have top: "jump_free (last (stack st))" using inv by simp
  have bl: "\<forall>v\<in>set (butlast (stack st)). jump_free v" using inv by (auto dest: in_set_butlastD)
  show ?thesis
  proof (cases s)
    case (Call b p c a)
    with assms(1) top bl show ?thesis
      by (auto simp: update_Call[OF ne] jump_free_note_prompt jump_free_TapeView jump_free_add_step)
  next
    case (Respond b p c)
    from update_length[OF assms(1)] Respond
    have "stack st' \<noteq> []" "int (length (stack st')) = int (length (stack st)) - 1" by simp_all
    moreover from this(1) have "0 < length (stack st')" by simp
    ultimately have "1 < length (stack st)" by linarith
    then obtain fs cl t where st: "stack st = fs @ [cl, t]" using two_frames by blast
    with inv have "jump_free cl" "jump_free t" "\<forall>v\<in>set fs. jump_free v" by simp_all
    with assms(1) Respond show ?thesis
      by (auto simp: update_Respond_two[OF st] jump_free_note_prompt jump_free_add_step
          jump_free_popped_top)
  next
    case (Broadcast b p c f tos)
    with assms(1) top bl show ?thesis
      by (auto simp: update_Broadcast[OF ne] jump_free_note_prompt jump_free_add_step)
  next
    case (Jump k b p n)
    with assms(1) top inv show ?thesis
      by (auto simp: update_Jump[OF ne] jump_free_note_prompt jump_free_next_node dest!: in_set_top)
  next
    case (AgentStep k b p c)
    with assms(1) top inv show ?thesis
      by (auto simp: update_AgentStep[OF ne] jump_free_note_prompt jump_free_add_step dest!: in_set_top)
  next
    case (Observation k c)
    with assms(1) top inv show ?thesis
      by (auto simp: update_Observation[OF ne] jump_free_note_prompt jump_free_add_step dest!: in_set_top)
  next
    case (OtherStep k)
    with assms(1) ne show ?thesis by (simp add: update_eq)
  qed
qed

lemma update_all_jump_free:
  "update_all st ss = Inr st' \<Longrightarrow> \<forall>v\<in>set (stack st). jump_free v \<Longrightarrow> \<forall>v\<in>set (stack st'). jump_free v"
proof (induction ss arbitrary: st)
  case Nil
  then show ?case by simp
next
  case (Cons s ss)
  from Cons.prems(1) obtain st1 where u: "update st s = Inr st1" and r: "update_all st1 ss = Inr st'"
    by (auto split: sum.splits)
  from update_jump_free[OF u Cons.prems(2)] Cons.IH[OF r] show ?case by blast
qed

lemma note_prompt_Jump_next_node: "next_node (note_prompt v (Jump k b p n)) = next_node v"
  by (simp add: note_prompt_def split: option.splits)

section \<open>Depth of the stack\<close>

text \<open>
  C1 (balance invariant). Whenever the steps \<open>ss\<close> are processed from the root stack
  without an exception, every prefix of \<open>ss\<close> is processed without an exception too, and
  after it the depth of the stack is 1 plus the number of \<open>Call\<close> steps minus the number
  of \<open>Respond\<close> steps of that prefix, and at least 1. On a non-empty stack a \<open>Call\<close>
  always succeeds and makes the stack one frame deeper; on a stack of at least two frames
  a \<open>Respond\<close> always succeeds and makes it one frame shallower.
\<close>

theorem balance_invariant:
  "(update_all root_stack ss = Inr st \<longrightarrow> i \<le> length ss \<longrightarrow>
      (\<exists>sti. update_all root_stack (take i ss) = Inr sti \<and>
         int (length (stack sti)) =
           1 + int (length (filter is_Call (take i ss))) - int (length (filter is_Respond (take i ss))) \<and>
         1 \<le> length (stack sti))) \<and>
   (stack st0 \<noteq> [] \<longrightarrow> is_Call s \<longrightarrow>
      (\<exists>st1. update st0 s = Inr st1 \<and> length (stack st1) = length (stack st0) + 1)) \<and>
   (1 < length (stack st2) \<longrightarrow> is_Respond r \<longrightarrow>
      (\<exists>st3. update st2 r = Inr st3 \<and> length (stack st3) + 1 = length (stack st2)))"
proof (intro conjI impI)
  assume run: "update_all root_stack ss = Inr st" and "i \<le> length ss"
  have "update_all root_stack (take i ss @ drop i ss) = Inr st" using run by simp
  then obtain sti where sti: "update_all root_stack (take i ss) = Inr sti"
    unfolding update_all_append by (auto split: sum.splits)
  have root: "stack root_stack \<noteq> []" "length (stack root_stack) = 1"
    by (simp_all add: root_stack_def)
  from update_all_length[OF sti root(1)] root(2)
  have "int (length (stack sti)) =
           1 + int (length (filter is_Call (take i ss))) - int (length (filter is_Respond (take i ss)))"
    and "stack sti \<noteq> []" by simp_all
  moreover from \<open>stack sti \<noteq> []\<close> have "1 \<le> length (stack sti)" by (cases "stack sti") simp_all
  ultimately show "\<exists>sti. update_all root_stack (take i ss) = Inr sti \<and>
         int (length (stack sti)) =
           1 + int (length (filter is_Call (take i ss))) - int (length (filter is_Respond (take i ss))) \<and>
         1 \<le> length (stack sti)" using sti by blast
next
  assume a: "stack st0 \<noteq> []" "is_Call s"
  then obtain st1 where u: "update st0 s = Inr st1" using call_total by blast
  from a(2) have "\<not> is_Respond s" by (cases s) simp_all
  with update_length[OF u] a(2) have "length (stack st1) = length (stack st0) + 1" by simp
  with u show "\<exists>st1. update st0 s = Inr st1 \<and> length (stack st1) = length (stack st0) + 1" by blast
next
  assume a: "1 < length (stack st2)" "is_Respond r"
  then obtain st3 where u: "update st2 r = Inr st3" using respond_total by blast
  from a(2) have "\<not> is_Call r" by (cases r) simp_all
  with update_length[OF u] a(2) have "length (stack st3) + 1 = length (stack st2)" by simp
  with u show "\<exists>st3. update st2 r = Inr st3 \<and> length (stack st3) + 1 = length (stack st2)" by blast
qed

theorem balance_invariant_witness:
  "(\<exists>st. update_all root_stack scenario_steps = Inr st) \<and> (2::nat) \<le> length scenario_steps \<and>
   (\<exists>sti. update_all root_stack (take 2 scenario_steps) = Inr sti \<and> length (stack sti) = 2) \<and>
   stack root_stack \<noteq> [] \<and> is_Call scenario_call \<and>
   (\<exists>st1. update root_stack scenario_call = Inr st1 \<and> length (stack st1) = 2) \<and>
   1 < length (stack two_frame_stack) \<and> is_Respond scenario_respond \<and>
   (\<exists>st3. update two_frame_stack scenario_respond = Inr st3 \<and> length (stack st3) = 1)"
proof -
  have "case update_all root_stack scenario_steps of Inl e \<Rightarrow> False | Inr st \<Rightarrow> True"
    by code_simp
  then obtain st where st: "update_all root_stack scenario_steps = Inr st"
    by (cases "update_all root_stack scenario_steps") simp_all
  have len: "(2::nat) \<le> length scenario_steps" by (simp add: scenario_steps_def)
  have c: "stack root_stack \<noteq> []" "is_Call scenario_call"
    by (simp_all add: root_stack_def scenario_call_def)
  have r: "1 < length (stack two_frame_stack)" "is_Respond scenario_respond"
    by (simp_all add: two_frame_stack_def scenario_respond_def)
  have cnt: "filter is_Call (take 2 scenario_steps) = [scenario_call]"
    "filter is_Respond (take 2 scenario_steps) = []"
    by (simp_all add: scenario_steps_def scenario_call_def scenario_result_def scenario_respond_def
        numeral_2_eq_2)
  have d: "length (stack root_stack) = 1" "length (stack two_frame_stack) = 2"
    by (simp_all add: root_stack_def two_frame_stack_def)
  from balance_invariant[of scenario_steps st 2 root_stack scenario_call two_frame_stack scenario_respond]
    st len c r
  show ?thesis unfolding cnt d by auto
qed

section \<open>Returning from a subagent\<close>

text \<open>
  C2 (output selection on \<open>Respond\<close>), as the code has it. Let the stack end with the
  caller frame \<open>c\<close> and the top frame \<open>t\<close>, and let \<open>x\<close> be the last step of \<open>t\<close> that
  is neither a \<open>Call\<close> nor a \<open>Respond\<close> and is not attributed to the caller, the agent
  that is active once \<open>t\<close> is popped: every step of \<open>t\<close> after \<open>x\<close> is a \<open>Call\<close>, a
  \<open>Respond\<close> or a step of the caller. Then \<open>update\<close> with a \<open>Respond\<close> succeeds, pops
  \<open>t\<close>, records \<open>x\<close> under the popped agent's name in the caller's
  \<open>outputs_by_subagent\<close>, and appends \<open>x\<close> and then the \<open>Respond\<close> to the caller's
  steps. No step attributed to the caller is recorded as the output. For a frame
  \<open>[InputA, ResultX, Call, ..., Respond]\<close> the output is \<open>ResultX\<close> exactly when no step
  after \<open>ResultX\<close> is eligible in this sense; a later eligible step, such as the output a
  nested callee left in the frame, is the one recorded.
\<close>

theorem output_selection:
  assumes "stack st = fs @ [c, t]"
    and "steps t = pre @ x # suf"
    and "\<not> is_Call x" "\<not> is_Respond x"
    and "is_step_by_active_agent (st\<lparr>stack := fs @ [c]\<rparr>) x = Inr False"
    and "\<forall>y\<in>set suf. is_Call y \<or> is_Respond y
            \<or> is_step_by_active_agent (st\<lparr>stack := fs @ [c]\<rparr>) y = Inr True"
  shows "\<exists>st' nt. update st (Respond b p ct) = Inr st' \<and> stack st' = fs @ [nt] \<and>
           map_of (outputs_by_subagent nt) (agent_name t) = Some x \<and>
           steps nt = steps c @ [x, Respond b p ct] \<and>
           (\<forall>y. is_step_by_active_agent (st\<lparr>stack := fs @ [c]\<rparr>) y = Inr True \<longrightarrow>
                map_of (outputs_by_subagent nt) (agent_name t) \<noteq> Some y)"
proof -
  have ex: "eligible c x" using assms(3-5) by (simp add: eligible_def is_step_by_active_agent_top)
  have "\<forall>y\<in>set suf. \<not> eligible c y"
    using assms(6) by (auto simp: eligible_def is_step_by_active_agent_top)
  with ex have f: "find (eligible c) (rev (steps t)) = Some x"
    unfolding assms(2) by (rule find_last_eligible)
  let ?r = "Respond b p ct"
  let ?nt = "note_prompt (add_step (popped_top c t) ?r) ?r"
  have o: "outputs_by_subagent ?nt = AList.update (agent_name t) x (outputs_by_subagent c)"
    by (simp add: note_prompt_fields add_step_fields popped_top_def f)
  have s: "steps ?nt = steps c @ [x, ?r]"
    by (simp add: note_prompt_fields add_step_fields popped_top_def f)
  have "map_of (outputs_by_subagent ?nt) (agent_name t) = Some x"
    unfolding o by (rule map_of_update_same)
  moreover have "\<forall>y. is_step_by_active_agent (st\<lparr>stack := fs @ [c]\<rparr>) y = Inr True \<longrightarrow>
                map_of (outputs_by_subagent ?nt) (agent_name t) \<noteq> Some y"
    using assms(5) unfolding o map_of_update_same by auto
  ultimately show ?thesis using s update_Respond_two[OF assms(1), of b p ct] by simp
qed


theorem output_selection_witness:
  "\<exists>st' nt. update (callee_stack [input_a, result_x, nested_call, nested_respond]) scenario_respond = Inr st' \<and>
     stack st' = [nt] \<and> map_of (outputs_by_subagent nt) ''B'' = Some result_x \<and>
     steps nt = [result_x, scenario_respond] \<and>
     map_of (outputs_by_subagent nt) ''B'' \<noteq> Some input_a"
proof -
  let ?st = "callee_stack [input_a, result_x, nested_call, nested_respond]"
  let ?c = "TapeView ''root'' ''root''"
  let ?t = "(TapeView ''B'' ''root/B'')\<lparr>steps := [input_a, result_x, nested_call, nested_respond]\<rparr>"
  have h1: "stack ?st = [] @ [?c, ?t]" by (simp add: callee_stack_def)
  have h2: "steps ?t = [input_a] @ result_x # [nested_call, nested_respond]" by simp
  have h3: "\<not> is_Call result_x" "\<not> is_Respond result_x" by (simp_all add: result_x_def)
  have h5: "is_step_by_active_agent (?st\<lparr>stack := [] @ [?c]\<rparr>) result_x = Inr False"
    by code_simp
  have h6: "\<forall>y\<in>set [nested_call, nested_respond]. is_Call y \<or> is_Respond y
            \<or> is_step_by_active_agent (?st\<lparr>stack := [] @ [?c]\<rparr>) y = Inr True"
    by (simp add: nested_call_def nested_respond_def)
  have a: "is_step_by_active_agent (?st\<lparr>stack := [] @ [?c]\<rparr>) input_a = Inr True"
    by code_simp
  have n: "agent_name ?t = ''B''" "steps ?c = []" by (simp_all add: TapeView_def)
  from output_selection[OF h1 h2 h3 h5 h6, of "''root/B''" "[]" "[]"] a
  show ?thesis unfolding n scenario_respond_def by auto
qed

text \<open>
  The frame of \<open>B\<close> is \<open>[InputA, ResultX, Call, C's output, Respond]\<close> when \<open>B\<close> responds,
  with \<open>InputA\<close> attributed to the caller: the output recorded for \<open>B\<close> is the output of
  \<open>C\<close>, not \<open>ResultX\<close>.
\<close>

theorem output_selection_counterexample:
  "top_steps (update_all root_stack (butlast nested_tape)) =
     Some [input_a, result_x, nested_call, nested_output, nested_respond] \<and>
   is_step_by_active_agent root_stack input_a = Inr True \<and>
   is_Call nested_call \<and> is_Respond nested_respond \<and>
   top_output (update_all root_stack nested_tape) (Name ''B'') = Inr nested_output \<and>
   top_output (update_all root_stack nested_tape) (Name ''B'') \<noteq> Inr result_x"
  by code_simp

text \<open>
  C10 (pop with no eligible output). When every step of the popped frame \<open>t\<close> is a
  \<open>Call\<close>, a \<open>Respond\<close> or a step attributed to the caller, \<open>update\<close> with a \<open>Respond\<close>
  succeeds, leaves the caller's \<open>outputs_by_subagent\<close> as it was, appends only the
  \<open>Respond\<close> to the caller's steps, and appends the \<open>Respond\<close> to \<open>messages_by_agent\<close>
  under \<open>step.by\<close> and under \<open>step.by\<close> without its last path segment.
\<close>

theorem pop_without_output:
  assumes "stack st = fs @ [c, t]"
    and "\<forall>y\<in>set (steps t). is_Call y \<or> is_Respond y
            \<or> is_step_by_active_agent (st\<lparr>stack := fs @ [c]\<rparr>) y = Inr True"
  shows "\<exists>st' nt. update st (Respond b p ct) = Inr st' \<and> stack st' = fs @ [nt] \<and>
           outputs_by_subagent nt = outputs_by_subagent c \<and>
           steps nt = steps c @ [Respond b p ct] \<and>
           messages_by_agent st' =
             dict_append (dict_append (messages_by_agent st) b (Respond b p ct))
               (rsplit1_head CHR ''/'' b) (Respond b p ct) \<and>
           Respond b p ct \<in> set (dict_get (messages_by_agent st') b) \<and>
           Respond b p ct \<in> set (dict_get (messages_by_agent st') (rsplit1_head CHR ''/'' b))"
proof -
  have "\<forall>y\<in>set (steps t). \<not> eligible c y"
    using assms(2) by (auto simp: eligible_def is_step_by_active_agent_top)
  then have f: "find (eligible c) (rev (steps t)) = None" by (rule find_none_eligible)
  let ?r = "Respond b p ct"
  let ?nt = "note_prompt (add_step (popped_top c t) ?r) ?r"
  let ?m = "dict_append (dict_append (messages_by_agent st) b ?r) (rsplit1_head CHR ''/'' b) ?r"
  have o: "outputs_by_subagent ?nt = outputs_by_subagent c"
    by (simp add: note_prompt_fields add_step_fields popped_top_def f)
  have s: "steps ?nt = steps c @ [?r]"
    by (simp add: note_prompt_fields add_step_fields popped_top_def f)
  have m: "?r \<in> set (dict_get ?m b)" "?r \<in> set (dict_get ?m (rsplit1_head CHR ''/'' b))"
    by (simp_all add: dict_get_dict_append)
  show ?thesis using o s m update_Respond_two[OF assms(1), of b p ct] by simp
qed

theorem pop_without_output_witness:
  "\<exists>st' nt. update (callee_stack [input_a, nested_call, nested_respond]) scenario_respond = Inr st' \<and>
     stack st' = [nt] \<and> outputs_by_subagent nt = [] \<and> steps nt = [scenario_respond] \<and>
     messages_by_agent st' = [(''root/B'', [scenario_respond]), (''root'', [scenario_respond])]"
proof -
  let ?ss = "[input_a, nested_call, nested_respond]"
  let ?st = "callee_stack ?ss"
  let ?c = "TapeView ''root'' ''root''"
  let ?t = "(TapeView ''B'' ''root/B'')\<lparr>steps := ?ss\<rparr>"
  have h1: "stack ?st = [] @ [?c, ?t]" by (simp add: callee_stack_def)
  have h2: "\<forall>y\<in>set (steps ?t). is_Call y \<or> is_Respond y
            \<or> is_step_by_active_agent (?st\<lparr>stack := [] @ [?c]\<rparr>) y = Inr True"
    by code_simp
  have n: "outputs_by_subagent ?c = []" "steps ?c = []" "messages_by_agent ?st = []"
    by (simp_all add: TapeView_def callee_stack_def)
  have r: "rsplit1_head CHR ''/'' ''root/B'' = ''root''" by (simp add: rsplit1_head_def)
  have d: "dict_append (dict_append [] ''root/B'' scenario_respond) ''root'' scenario_respond
           = [(''root/B'', [scenario_respond]), (''root'', [scenario_respond])]"
    by (simp add: dict_append_def)
  from pop_without_output[OF h1 h2, of "''root/B''" "[]" "[]"]
  show ?thesis unfolding n r scenario_respond_def[symmetric] d by auto
qed

section \<open>Node counting\<close>

text \<open>
  C3 (node counting), as the code has it. On a stack whose top frame is fresh
  (\<open>next_node = 0\<close>, \<open>last_prompt_id\<close> empty), three \<open>AgentStep\<close>s attributed to the
  active agent with prompt ids \<open>p1\<close>, \<open>p1\<close>, \<open>p2\<close> are processed without an exception,
  and the top frame's \<open>next_node\<close> is 1 after the first, 1 after the second and 2 after the
  third: it increases on the first step, since \<open>p1\<close> differs from the empty
  \<open>last_prompt_id\<close>, and between the second and the third step, and not in between.
\<close>

theorem node_counting:
  assumes "stack st \<noteq> []"
    and "next_node (last (stack st)) = 0" and "last_prompt_id (last (stack st)) = []"
    and "is_step_by_active_agent st (AgentStep k1 b1 ''p1'' c1) = Inr True"
    and "is_step_by_active_agent st (AgentStep k2 b2 ''p1'' c2) = Inr True"
    and "is_step_by_active_agent st (AgentStep k3 b3 ''p2'' c3) = Inr True"
  shows "\<exists>st1 st2 st3.
           update st (AgentStep k1 b1 ''p1'' c1) = Inr st1 \<and>
           update st1 (AgentStep k2 b2 ''p1'' c2) = Inr st2 \<and>
           update st2 (AgentStep k3 b3 ''p2'' c3) = Inr st3 \<and>
           top_next_node (Inr st) = Some 0 \<and> top_next_node (Inr st1) = Some 1 \<and>
           top_next_node (Inr st2) = Some 1 \<and> top_next_node (Inr st3) = Some 2"
proof -
  let ?s1 = "AgentStep k1 b1 ''p1'' c1" and ?s2 = "AgentStep k2 b2 ''p1'' c2"
    and ?s3 = "AgentStep k3 b3 ''p2'' c3"
  let ?t0 = "last (stack st)"
  let ?t1 = "note_prompt (add_step ?t0 ?s1) ?s1"
  let ?t2 = "note_prompt (add_step ?t1 ?s2) ?s2"
  let ?t3 = "note_prompt (add_step ?t2 ?s3) ?s3"
  have a: "active_in ?t0 ?s1" "active_in ?t0 ?s2" "active_in ?t0 ?s3"
    using assms(4-6) by (simp_all add: is_step_by_active_agent_nonempty[OF assms(1)])
  have n1: "agent_full_name ?t1 = agent_full_name ?t0"
    by (simp add: note_prompt_fields add_step_fields)
  have n2: "agent_full_name ?t2 = agent_full_name ?t0"
    by (simp add: note_prompt_fields add_step_fields)
  have a1: "active_in (add_step ?t0 ?s1) ?s1"
    using a(1) active_in_cong[of "add_step ?t0 ?s1" ?t0] by (simp add: add_step_fields)
  have a2: "active_in (add_step ?t1 ?s2) ?s2"
    using a(2) active_in_cong[of "add_step ?t1 ?s2" ?t0] n1 by (simp add: add_step_fields)
  have a3: "active_in (add_step ?t2 ?s3) ?s3"
    using a(3) active_in_cong[of "add_step ?t2 ?s3" ?t0] n2 by (simp add: add_step_fields)
  have v1: "next_node ?t1 = 1" "last_prompt_id ?t1 = ''p1''"
    using assms(2,3) by (simp_all add: note_prompt_active_AgentStep[OF a1] add_step_fields)
  have v2: "next_node ?t2 = 1" "last_prompt_id ?t2 = ''p1''"
    using v1 by (simp_all add: note_prompt_active_AgentStep[OF a2] add_step_fields)
  have v3: "next_node ?t3 = 2"
    using v2 by (simp add: note_prompt_active_AgentStep[OF a3] add_step_fields)
  have ne: "stack (set_top st v) \<noteq> []" for v by (simp add: set_top_def)
  have u1: "update st ?s1 = Inr (set_top st ?t1)" by (rule update_AgentStep[OF assms(1)])
  have u2: "update (set_top st ?t1) ?s2 = Inr (set_top st ?t2)"
    by (simp add: update_AgentStep[OF ne] last_set_top set_top_set_top)
  have u3: "update (set_top st ?t2) ?s3 = Inr (set_top st ?t3)"
    by (simp add: update_AgentStep[OF ne] last_set_top set_top_set_top)
  have t: "top_next_node (Inr (set_top st v)) = Some (next_node v)" for v
    by (simp add: stack_top_nonempty[OF ne] last_set_top)
  have t0: "top_next_node (Inr st) = Some 0"
    using assms(1,2) by (simp add: stack_top_nonempty)
  have tn: "top_next_node (Inr (set_top st ?t1)) = Some 1"
    "top_next_node (Inr (set_top st ?t2)) = Some 1"
    "top_next_node (Inr (set_top st ?t3)) = Some 2"
    unfolding t by (simp_all only: v1 v2 v3)
  show ?thesis using u1 u2 u3 t0 tn by blast
qed

text \<open>
  From the root stack the counter is 0, then 1, 1 and 2: it has increased twice, the first
  time on the first step.
\<close>

theorem node_counting_counterexample:
  "top_next_node (Inr root_stack) = Some 0 \<and>
   top_next_node (update_all root_stack (take 1 node_steps)) = Some 1 \<and>
   top_next_node (update_all root_stack (take 2 node_steps)) = Some 1 \<and>
   top_next_node (update_all root_stack node_steps) = Some 2"
  by code_simp

theorem node_counting_witness:
  "\<exists>st1 st2 st3.
     update root_stack (AgentStep ''thought'' ''root'' ''p1'' ''a'') = Inr st1 \<and>
     update st1 (AgentStep ''thought'' ''root'' ''p1'' ''b'') = Inr st2 \<and>
     update st2 (AgentStep ''thought'' ''root'' ''p2'' ''c'') = Inr st3 \<and>
     top_next_node (Inr root_stack) = Some 0 \<and> top_next_node (Inr st1) = Some 1 \<and>
     top_next_node (Inr st2) = Some 1 \<and> top_next_node (Inr st3) = Some 2"
proof -
  have h1: "stack root_stack \<noteq> []" by (simp add: root_stack_def)
  have h2: "next_node (last (stack root_stack)) = 0" by (simp add: root_stack_def TapeView_def)
  have h3: "last_prompt_id (last (stack root_stack)) = []" by (simp add: root_stack_def TapeView_def)
  have h4: "is_step_by_active_agent root_stack (AgentStep ''thought'' ''root'' ''p1'' ''a'') = Inr True"
    by code_simp
  have h5: "is_step_by_active_agent root_stack (AgentStep ''thought'' ''root'' ''p1'' ''b'') = Inr True"
    by code_simp
  have h6: "is_step_by_active_agent root_stack (AgentStep ''thought'' ''root'' ''p2'' ''c'') = Inr True"
    by code_simp
  show ?thesis by (rule node_counting[OF h1 h2 h3 h4 h5 h6])
qed

section \<open>The end-to-end scenario\<close>

text \<open>
  C4 (end-to-end scenario). \<open>compute\<close>, with an empty cache, on the tape
  \<open>[Call(agent_name="B", by="root"), AgentStep(by="root/B", prompt_id="p1"), Respond(by="root/B")]\<close>
  (whatever the other fields of the three steps are) returns a stack of depth 1 whose root
  frame gives that \<open>AgentStep\<close> as the output of subagent \<open>B\<close>, and whose
  \<open>messages_by_agent\<close> holds exactly the \<open>Call\<close> and the \<open>Respond\<close>, in this order,
  under \<open>root\<close> and under \<open>root/B\<close>.
\<close>

theorem end_to_end_scenario:
  "\<exists>st cache'.
     compute Map.empty
       \<lparr>tape_id = n,
        tape_steps = [Call ''root'' p1 c1 ''B'', AgentStep k ''root/B'' ''p1'' c2, Respond ''root/B'' p3 c3]\<rparr>
       = (Inr st, cache') \<and>
     length (stack st) = 1 \<and>
     agent_name (hd (stack st)) = ''root'' \<and>
     get_output (hd (stack st)) (Name ''B'') = Inr (AgentStep k ''root/B'' ''p1'' c2) \<and>
     dict_get (messages_by_agent st) ''root'' = [Call ''root'' p1 c1 ''B'', Respond ''root/B'' p3 c3] \<and>
     dict_get (messages_by_agent st) ''root/B'' = [Call ''root'' p1 c1 ''B'', Respond ''root/B'' p3 c3]"
proof -
  let ?call = "Call ''root'' p1 c1 ''B''" and ?res = "AgentStep k ''root/B'' ''p1'' c2"
    and ?resp = "Respond ''root/B'' p3 c3"
  let ?root = "TapeView ''root'' ''root''"
  let ?m1 = "dict_append (dict_append [] ''root'' ?call) ''root/B'' ?call"
  have sp: "str_split CHR ''/'' ''root'' = [''root'']" "str_split CHR ''/'' ''root/B'' = [''root'', ''B'']"
    by simp_all
  have na: "\<not> active_in (TapeView ''B'' ''root/B'') ?call"
    by (simp add: active_in_def TapeView_fields sp)
  have u1: "update root_stack ?call =
      Inr \<lparr>stack = [add_step ?root ?call, TapeView ''B'' ''root/B''], messages_by_agent = ?m1\<rparr>"
    using na by (simp add: update_Call root_stack_def note_prompt_def TapeView_fields)
  let ?st1 = "\<lparr>stack = [add_step ?root ?call, TapeView ''B'' ''root/B''], messages_by_agent = ?m1\<rparr>"
  let ?b = "note_prompt (add_step (TapeView ''B'' ''root/B'') ?res) ?res"
  have u2: "update ?st1 ?res = Inr \<lparr>stack = [add_step ?root ?call, ?b], messages_by_agent = ?m1\<rparr>"
    by (simp add: update_AgentStep set_top_def)
  let ?st2 = "\<lparr>stack = [add_step ?root ?call, ?b], messages_by_agent = ?m1\<rparr>"
  let ?c = "add_step ?root ?call"
  have st2: "stack ?st2 = [] @ [?c, ?b]" by simp
  let ?nt = "note_prompt (add_step (popped_top ?c ?b) ?resp) ?resp"
  let ?m3 = "dict_append (dict_append ?m1 ''root/B'' ?resp) (rsplit1_head CHR ''/'' ''root/B'') ?resp"
  have u3: "update ?st2 ?resp = Inr \<lparr>stack = [?nt], messages_by_agent = ?m3\<rparr>"
    using update_Respond_two[OF st2, of "''root/B''" p3 c3] by simp
  have run: "update_all root_stack [?call, ?res, ?resp] = Inr \<lparr>stack = [?nt], messages_by_agent = ?m3\<rparr>"
    by (simp add: u1 u2 u3)
  have el: "eligible ?c ?res"
    by (simp add: eligible_def active_in_def add_step_def TapeView_def)
  have nb: "agent_name ?b = ''B''" by (simp add: note_prompt_fields add_step_fields TapeView_fields)
  have o: "outputs_by_subagent ?nt = [(''B'', ?res)]"
    by (simp add: note_prompt_fields add_step_fields popped_top_def el nb TapeView_fields)
  have an: "agent_name ?nt = ''root''"
    by (simp add: note_prompt_fields add_step_fields popped_top_def el TapeView_fields)
  have r: "rsplit1_head CHR ''/'' ''root/B'' = ''root''" by (simp add: rsplit1_head_def)
  have m: "dict_get ?m3 ''root'' = [?call, ?resp]" "dict_get ?m3 ''root/B'' = [?call, ?resp]"
    unfolding r by (simp_all add: dict_get_dict_append dict_get_Nil)
  let ?fin = "\<lparr>stack = [?nt], messages_by_agent = ?m3\<rparr>"
  have comp: "compute Map.empty \<lparr>tape_id = n, tape_steps = [?call, ?res, ?resp]\<rparr>
                = (Inr ?fin, [n \<mapsto> ?fin])"
    by (simp add: compute_def run del: update_all.simps)
  show ?thesis
    by (intro exI[of _ ?fin] exI[of _ "[n \<mapsto> ?fin]"]) (simp add: comp o an m)
qed

section \<open>Broadcast\<close>

text \<open>
  C5 (broadcast is non-blocking). On a non-empty stack, \<open>update\<close> with a \<open>Broadcast\<close>
  step with \<open>to = ["X", "Y"]\<close> succeeds; the stack keeps its depth and the frames below
  the top, the top frame keeps its agent and has the step appended to its steps, and the
  step is appended to \<open>messages_by_agent\<close> under \<open>step.by + "/X"\<close> and under
  \<open>step.by + "/Y"\<close>, every other entry staying as it was.
\<close>

theorem broadcast_non_blocking:
  assumes "stack st \<noteq> []"
  shows "\<exists>st'. update st (Broadcast b p c f [''X'', ''Y'']) = Inr st' \<and>
           length (stack st') = length (stack st) \<and>
           butlast (stack st') = butlast (stack st) \<and>
           agent_name (last (stack st')) = agent_name (last (stack st)) \<and>
           agent_full_name (last (stack st')) = agent_full_name (last (stack st)) \<and>
           steps (last (stack st')) = steps (last (stack st)) @ [Broadcast b p c f [''X'', ''Y'']] \<and>
           dict_get (messages_by_agent st') (b @ ''/X'') =
             dict_get (messages_by_agent st) (b @ ''/X'') @ [Broadcast b p c f [''X'', ''Y'']] \<and>
           dict_get (messages_by_agent st') (b @ ''/Y'') =
             dict_get (messages_by_agent st) (b @ ''/Y'') @ [Broadcast b p c f [''X'', ''Y'']] \<and>
           (\<forall>k. k \<noteq> b @ ''/X'' \<and> k \<noteq> b @ ''/Y'' \<longrightarrow>
                dict_get (messages_by_agent st') k = dict_get (messages_by_agent st) k)"
proof -
  let ?s = "Broadcast b p c f [''X'', ''Y'']"
  let ?t = "note_prompt (add_step (last (stack st)) ?s) ?s"
  let ?m = "broadcast_loop (messages_by_agent st) b ?s [''X'', ''Y'']"
  let ?st' = "\<lparr>stack = butlast (stack st) @ [?t], messages_by_agent = ?m\<rparr>"
  have u: "update st ?s = Inr ?st'" by (rule update_Broadcast[OF assms])
  have len: "length (stack ?st') = length (stack st)" using assms by simp
  have f: "agent_name ?t = agent_name (last (stack st))"
    "agent_full_name ?t = agent_full_name (last (stack st))"
    "steps ?t = steps (last (stack st)) @ [?s]"
    by (simp_all add: note_prompt_fields add_step_fields)
  have m: "dict_get ?m (b @ ''/X'') = dict_get (messages_by_agent st) (b @ ''/X'') @ [?s]"
    "dict_get ?m (b @ ''/Y'') = dict_get (messages_by_agent st) (b @ ''/Y'') @ [?s]"
    "\<forall>k. k \<noteq> b @ ''/X'' \<and> k \<noteq> b @ ''/Y'' \<longrightarrow> dict_get ?m k = dict_get (messages_by_agent st) k"
    by (simp_all add: dict_get_dict_append)
  show ?thesis
  proof (intro exI[of _ ?st'] conjI)
    show "\<forall>k. k \<noteq> b @ ''/X'' \<and> k \<noteq> b @ ''/Y'' \<longrightarrow>
            dict_get (messages_by_agent ?st') k = dict_get (messages_by_agent st) k"
      using m(3) by simp
  qed (simp_all add: u assms f dict_get_dict_append)
qed

theorem broadcast_non_blocking_witness:
  "stack root_stack \<noteq> [] \<and>
   (\<exists>st'. update root_stack (Broadcast ''root'' [] ''hello'' ''root'' [''X'', ''Y'']) = Inr st' \<and>
      length (stack st') = 1 \<and>
      agent_full_name (last (stack st')) = ''root'' \<and>
      steps (last (stack st')) = [Broadcast ''root'' [] ''hello'' ''root'' [''X'', ''Y'']] \<and>
      dict_get (messages_by_agent st') ''root/X'' = [Broadcast ''root'' [] ''hello'' ''root'' [''X'', ''Y'']] \<and>
      dict_get (messages_by_agent st') ''root/Y'' = [Broadcast ''root'' [] ''hello'' ''root'' [''X'', ''Y'']])"
proof -
  have h: "stack root_stack \<noteq> []" by (simp add: root_stack_def)
  have r: "length (stack root_stack) = 1" "agent_full_name (last (stack root_stack)) = ''root''"
    "steps (last (stack root_stack)) = []" "dict_get (messages_by_agent root_stack) k = []" for k
    by (simp_all add: root_stack_def TapeView_def dict_get_def)
  from broadcast_non_blocking[OF h, of "''root''" "[]" "''hello''" "''root''"] h
  show ?thesis unfolding r by auto
qed

section \<open>Errors\<close>

text \<open>
  C6 (malformed sequences abort). On a non-empty stack \<open>update\<close> raises in exactly two
  cases: with \<open>IndexError\<close> when the step is a \<open>Respond\<close> and only one frame is on the
  stack, and with \<open>ValueError\<close> when the step is none of the kinds the \<open>match\<close> statement
  knows; every stack reached from the root stack is non-empty. An exception of \<open>update\<close>
  is the result of the whole loop, whatever steps follow, and \<open>compute\<close> then returns it
  and leaves the cache as it was.
\<close>

theorem malformed_sequences_abort:
  "(stack st \<noteq> [] \<longrightarrow>
      (update st s = Inl e \<longleftrightarrow>
         (is_Respond s \<and> length (stack st) = 1 \<and> e = IndexError) \<or>
         ((\<exists>k. s = OtherStep k) \<and> e = ValueError))) \<and>
   (update_all root_stack pre1 = Inr st1 \<longrightarrow> stack st1 \<noteq> []) \<and>
   (update_all st0 pre = Inr st2 \<longrightarrow> update st2 s2 = Inl e2 \<longrightarrow>
      update_all st0 (pre @ s2 # suf) = Inl e2) \<and>
   (cache (tape_id tp) = None \<longrightarrow> update_all root_stack (tape_steps tp) = Inl e3 \<longrightarrow>
      compute cache tp = (Inl e3, cache))"
proof (intro conjI impI)
  assume ne: "stack st \<noteq> []"
  show "update st s = Inl e \<longleftrightarrow>
         (is_Respond s \<and> length (stack st) = 1 \<and> e = IndexError) \<or>
         ((\<exists>k. s = OtherStep k) \<and> e = ValueError)"
    unfolding dispatch_error_iff[OF ne, symmetric]
    by (simp add: update_eq[OF ne] split: sum.splits)
next
  assume "update_all root_stack pre1 = Inr st1"
  moreover have "stack root_stack \<noteq> []" by (simp add: root_stack_def)
  ultimately show "stack st1 \<noteq> []" using update_all_length by blast
next
  assume "update_all st0 pre = Inr st2" "update st2 s2 = Inl e2"
  then show "update_all st0 (pre @ s2 # suf) = Inl e2" by (simp add: update_all_append)
next
  assume "cache (tape_id tp) = None" "update_all root_stack (tape_steps tp) = Inl e3"
  then show "compute cache tp = (Inl e3, cache)" by (simp add: compute_def)
qed

theorem malformed_sequences_abort_witness:
  "stack root_stack \<noteq> [] \<and>
   update root_stack scenario_respond = Inl IndexError \<and>
   update root_stack (OtherStep ''unknown'') = Inl ValueError \<and>
   (\<exists>st1. update_all root_stack [scenario_call] = Inr st1 \<and> stack st1 \<noteq> []) \<and>
   update_all root_stack ([] @ scenario_respond # [scenario_call]) = Inl IndexError \<and>
   compute Map.empty \<lparr>tape_id = 0, tape_steps = [scenario_respond]\<rparr> = (Inl IndexError, Map.empty)"
proof -
  let ?tp = "\<lparr>tape_id = 0, tape_steps = [scenario_respond]\<rparr>"
  have ne: "stack root_stack \<noteq> []" by (simp add: root_stack_def)
  have l: "is_Respond scenario_respond" "length (stack root_stack) = 1"
    by (simp_all add: scenario_respond_def root_stack_def)
  have "case update_all root_stack [scenario_call] of Inl e \<Rightarrow> False | Inr st \<Rightarrow> True"
    by code_simp
  then obtain st1 where st1: "update_all root_stack [scenario_call] = Inr st1"
    by (cases "update_all root_stack [scenario_call]") simp_all
  note t = malformed_sequences_abort[of root_stack scenario_respond IndexError "[scenario_call]" st1
      root_stack "[]" root_stack scenario_respond IndexError "[scenario_call]" Map.empty ?tp IndexError]
  note t' = malformed_sequences_abort[of root_stack "OtherStep ''unknown''" ValueError]
  have a: "update root_stack scenario_respond = Inl IndexError" using t ne l by simp
  have b: "update root_stack (OtherStep ''unknown'') = Inl ValueError" using t' ne by simp
  have c: "stack st1 \<noteq> []" using t st1 by simp
  have d: "update_all root_stack ([] @ scenario_respond # [scenario_call]) = Inl IndexError"
    using t a by simp
  have e: "compute Map.empty ?tp = (Inl IndexError, Map.empty)" using t a by simp
  show ?thesis using ne a b c d e st1 by blast
qed

text \<open>
  C7 (\<open>get_output\<close>). With an integer \<open>i\<close>, \<open>0 \<le> i < n\<close> for \<open>n\<close> outputs,
  \<open>get_output\<close> returns the \<open>i\<close>-th value of \<open>outputs_by_subagent\<close> in insertion order;
  as Python list indexing does, it counts a negative index \<open>-n \<le> j < 0\<close> from the end;
  outside \<open>-n \<le> i < n\<close> it fails with \<open>IndexError\<close>. With a name it returns the step
  stored under the name and fails with \<open>KeyError\<close> when there is none. The failure is its
  result: nothing catches it.
\<close>

theorem get_output_contract:
  "(0 \<le> i \<and> i < int (length (outputs_by_subagent v)) \<longrightarrow>
      get_output v (Index i) = Inr (snd (outputs_by_subagent v ! nat i))) \<and>
   (- int (length (outputs_by_subagent v)) \<le> j \<and> j < 0 \<longrightarrow>
      get_output v (Index j) =
        Inr (snd (outputs_by_subagent v ! nat (int (length (outputs_by_subagent v)) + j)))) \<and>
   (int (length (outputs_by_subagent v)) \<le> l \<or> l < - int (length (outputs_by_subagent v)) \<longrightarrow>
      get_output v (Index l) = Inl IndexError) \<and>
   (map_of (outputs_by_subagent v) n = Some x \<longrightarrow> get_output v (Name n) = Inr x) \<and>
   (map_of (outputs_by_subagent v) m = None \<longrightarrow> get_output v (Name m) = Inl KeyError)"
  by (auto simp: list_index_def)

theorem get_output_contract_witness:
  "get_output two_outputs (Index 1) = Inr input_a \<and>
   get_output two_outputs (Index (- 1)) = Inr input_a \<and>
   get_output two_outputs (Index 2) = Inl IndexError \<and>
   get_output two_outputs (Name ''B'') = Inr result_x \<and>
   get_output two_outputs (Name ''D'') = Inl KeyError"
proof -
  have o: "outputs_by_subagent two_outputs = [(''B'', result_x), (''C'', input_a)]"
    by (simp add: two_outputs_def)
  from get_output_contract[of 1 two_outputs "- 1" 2 "''B''" result_x "''D''"]
  show ?thesis unfolding o by simp
qed

section \<open>Determinism\<close>

text \<open>
  C8 (determinism). For two tapes with the same steps, whatever their identities, and
  caches that hold no entry for them, \<open>compute\<close> returns the same result: the fold of
  \<open>update\<close> over the steps from the root stack.
\<close>

theorem compute_deterministic:
  assumes "tape_steps t1 = tape_steps t2"
    and "cache1 (tape_id t1) = None" and "cache2 (tape_id t2) = None"
  shows "fst (compute cache1 t1) = fst (compute cache2 t2) \<and>
         fst (compute cache1 t1) = update_all root_stack (tape_steps t1)"
  using assms by (simp add: compute_def split: sum.splits)

theorem compute_deterministic_witness:
  "tape_id \<lparr>tape_id = 1, tape_steps = scenario_steps\<rparr> \<noteq> tape_id \<lparr>tape_id = 2, tape_steps = scenario_steps\<rparr> \<and>
   fst (compute Map.empty \<lparr>tape_id = 1, tape_steps = scenario_steps\<rparr>) =
   fst (compute Map.empty \<lparr>tape_id = 2, tape_steps = scenario_steps\<rparr>)"
proof -
  let ?t1 = "\<lparr>tape_id = 1, tape_steps = scenario_steps\<rparr>"
  let ?t2 = "\<lparr>tape_id = 2, tape_steps = scenario_steps\<rparr>"
  have h: "tape_steps ?t1 = tape_steps ?t2" "Map.empty (tape_id ?t1) = (None :: tape_view_stack option)"
    "Map.empty (tape_id ?t2) = (None :: tape_view_stack option)" by simp_all
  from compute_deterministic[OF h] show ?thesis by simp
qed

section \<open>Jump\<close>

text \<open>
  C9 (\<open>Jump\<close> leaves the log untouched). On a non-empty stack \<open>update\<close> with a \<open>Jump\<close>
  succeeds, sets the top frame's \<open>next_node\<close> to the step's \<open>next_node\<close>, and leaves the
  depth, \<open>messages_by_agent\<close> and the \<open>steps\<close> and \<open>steps_by_kind\<close> of every frame as
  they were. Hence in a stack computed from the root stack no frame has a \<open>Jump\<close> among its
  \<open>steps\<close> or in its \<open>steps_by_kind\<close>.
\<close>

theorem jump_leaves_log:
  "(stack st \<noteq> [] \<longrightarrow>
      (\<exists>st'. update st (Jump k b p n) = Inr st' \<and>
         next_node (last (stack st')) = n \<and>
         length (stack st') = length (stack st) \<and>
         messages_by_agent st' = messages_by_agent st \<and>
         map steps (stack st') = map steps (stack st) \<and>
         map steps_by_kind (stack st') = map steps_by_kind (stack st))) \<and>
   (update_all root_stack ss = Inr st2 \<longrightarrow>
      (\<forall>v\<in>set (stack st2).
         (\<forall>x\<in>set (steps v). \<not> is_Jump x) \<and>
         (\<forall>kv\<in>set (steps_by_kind v). \<forall>x\<in>set (snd kv). \<not> is_Jump x)))"
proof (intro conjI impI)
  assume ne: "stack st \<noteq> []"
  let ?j = "Jump k b p n"
  let ?t = "note_prompt ((last (stack st))\<lparr>next_node := n\<rparr>) ?j"
  have u: "update st ?j = Inr (set_top st ?t)" by (rule update_Jump[OF ne])
  have d: "stack st = butlast (stack st) @ [last (stack st)]" using ne by simp
  have s: "map steps (stack (set_top st ?t)) = map steps (butlast (stack st) @ [last (stack st)])"
    "map steps_by_kind (stack (set_top st ?t)) = map steps_by_kind (butlast (stack st) @ [last (stack st)])"
    by (simp_all add: set_top_def note_prompt_fields)
  have "next_node (last (stack (set_top st ?t))) = n"
    by (simp add: last_set_top note_prompt_Jump_next_node)
  moreover have "length (stack (set_top st ?t)) = length (stack st)" by (rule length_set_top[OF ne])
  moreover have "messages_by_agent (set_top st ?t) = messages_by_agent st" by (rule messages_set_top)
  moreover have "map steps (stack (set_top st ?t)) = map steps (stack st)"
    "map steps_by_kind (stack (set_top st ?t)) = map steps_by_kind (stack st)"
    using s d by simp_all
  ultimately show "\<exists>st'. update st ?j = Inr st' \<and>
         next_node (last (stack st')) = n \<and>
         length (stack st') = length (stack st) \<and>
         messages_by_agent st' = messages_by_agent st \<and>
         map steps (stack st') = map steps (stack st) \<and>
         map steps_by_kind (stack st') = map steps_by_kind (stack st)"
    using u by blast
next
  assume run: "update_all root_stack ss = Inr st2"
  have "\<forall>v\<in>set (stack root_stack). jump_free v"
    by (simp add: root_stack_def jump_free_TapeView)
  from update_all_jump_free[OF run this]
  show "\<forall>v\<in>set (stack st2).
         (\<forall>x\<in>set (steps v). \<not> is_Jump x) \<and>
         (\<forall>kv\<in>set (steps_by_kind v). \<forall>x\<in>set (snd kv). \<not> is_Jump x)"
    by (simp add: jump_free_def)
qed

theorem jump_leaves_log_witness:
  "stack two_frame_stack \<noteq> [] \<and>
   (\<exists>st'. update two_frame_stack (Jump ''jump'' ''root/B'' ''p1'' 3) = Inr st' \<and>
      next_node (last (stack st')) = 3 \<and> length (stack st') = 2 \<and>
      messages_by_agent st' = [] \<and> map steps (stack st') = [[], []] \<and>
      map steps_by_kind (stack st') = [[], []]) \<and>
   (\<exists>st2. update_all root_stack jump_tape = Inr st2 \<and>
      (\<forall>v\<in>set (stack st2).
         (\<forall>x\<in>set (steps v). \<not> is_Jump x) \<and>
         (\<forall>kv\<in>set (steps_by_kind v). \<forall>x\<in>set (snd kv). \<not> is_Jump x)))"
proof -
  have ne: "stack two_frame_stack \<noteq> []" by (simp add: two_frame_stack_def)
  have "case update_all root_stack jump_tape of Inl e \<Rightarrow> False | Inr st \<Rightarrow> True"
    by code_simp
  then obtain st2 where st2: "update_all root_stack jump_tape = Inr st2"
    by (cases "update_all root_stack jump_tape") simp_all
  have v: "length (stack two_frame_stack) = 2" "messages_by_agent two_frame_stack = []"
    "map steps (stack two_frame_stack) = [[], []]" "map steps_by_kind (stack two_frame_stack) = [[], []]"
    by (simp_all add: two_frame_stack_def TapeView_def)
  from jump_leaves_log[of two_frame_stack "''jump''" "''root/B''" "''p1''" 3 jump_tape st2] ne st2
  show ?thesis unfolding v by blast
qed

end
